theory Spec2Isabelle
  imports Complex_Main "HOL-Library.Word" "HOL-Library.AList"
begin

section \<open>Python exceptions\<close>

text \<open>
  The exceptions the two modules can raise, by their Python class. A function that can
  raise returns \<open>py_error + 'a\<close>, with \<open>Inl\<close> for the exception.
\<close>

datatype py_error =
  ValueError | KeyError | IndexError | TypeError | AttributeError | ZeroDivisionError

section \<open>Tile math (rasters/utils.py)\<close>

text \<open>
  Python floats are read as real numbers: the functions below are the formulas of the
  source in exact arithmetic. \<open>math.log\<close> raises ValueError outside its domain and a
  division by zero raises ZeroDivisionError; both are branches of the model.
\<close>

definition radians :: "real \<Rightarrow> real" where
  "radians d = d * pi / 180"


definition py_log :: "real \<Rightarrow> py_error + real" where
  "py_log x = (if x \<le> 0 then Inl ValueError else Inr (ln x))"

text \<open>\<open>2 ** z\<close> and \<open>pow(2, z)\<close> for an integer zoom (a float when \<open>z\<close> is negative).\<close>

definition pow2 :: "int \<Rightarrow> real" where
  "pow2 z = 2 powr (of_int z)"

definition sec :: "real \<Rightarrow> py_error + real" where
  "sec radian = (if cos radian = 0 then Inl ZeroDivisionError else Inr (1 / cos radian))"

definition latlon2xyz :: "real \<Rightarrow> real \<Rightarrow> int \<Rightarrow> py_error + (int \<times> int)" where
  "latlon2xyz lat lon z =
     (let tile_count = pow2 z;
          x = (lon + 180) / 360
      in case sec (radians lat) of
           Inl e \<Rightarrow> Inl e
         | Inr s \<Rightarrow>
             (case py_log (tan (radians lat) + s) of
                Inl e \<Rightarrow> Inl e
              | Inr l \<Rightarrow>
                  (let y = (1 - l / pi) / 2
                   in Inr (\<lfloor>tile_count * x\<rfloor>, \<lfloor>tile_count * y\<rfloor>))))"

definition bbox2xyz ::
  "real \<Rightarrow> real \<Rightarrow> real \<Rightarrow> real \<Rightarrow> int \<Rightarrow> py_error + (int \<times> int \<times> int \<times> int)" where
  "bbox2xyz lon_min lat_min lon_max lat_max z =
     (case latlon2xyz lat_min lon_min z of
        Inl e \<Rightarrow> Inl e
      | Inr (x_min, y_max) \<Rightarrow>
          (case latlon2xyz lat_max lon_max z of
             Inl e \<Rightarrow> Inl e
           | Inr (x_max, y_min) \<Rightarrow> Inr (x_min, y_min, x_max, y_max)))"





section \<open>Mask compositor (rasters/utils.py)\<close>

text \<open>
  An RGB mask is a numpy array of shape \<open>(H, W, 3)\<close> and dtype uint8: rows of pixels,
  each pixel three bytes. Arrays are mutable objects, so they live in a store and are
  passed by address; \<open>copy\<close> and \<open>np.array\<close> allocate a new array at the end of the
  store.
\<close>

type_synonym pixel = "8 word \<times> 8 word \<times> 8 word"
type_synonym ndarray = "pixel list list"
type_synonym np_heap = "ndarray list"

definition black :: pixel where
  "black = (0, 0, 0)"

text \<open>\<open>np.array(color)\<close> assigned into a uint8 array: each channel is cast, wrapping.\<close>

definition cast_color :: "int \<times> int \<times> int \<Rightarrow> pixel" where
  "cast_color color = (case color of (r, g, b) \<Rightarrow> (word_of_int r, word_of_int g, word_of_int b))"

text \<open>\<open>np.any(color_img != [0, 0, 0], axis=-1)\<close>: one boolean per pixel.\<close>

definition non_black :: "ndarray \<Rightarrow> bool list list" where
  "non_black img = map (map (\<lambda>px. px \<noteq> black)) img"

text \<open>\<open>color_img[mask] = np.array(color)\<close>: the selected pixels are overwritten.\<close>

definition assign_masked :: "ndarray \<Rightarrow> bool list list \<Rightarrow> pixel \<Rightarrow> ndarray" where
  "assign_masked img sel c = map2 (map2 (\<lambda>px b. if b then c else px)) img sel"

definition color_mask :: "np_heap \<Rightarrow> nat \<Rightarrow> int \<times> int \<times> int \<Rightarrow> py_error + (nat \<times> np_heap)" where
  "color_mask h msk color =
     (let color_img = length h;
          h1 = h @ [h ! msk];
          sel = non_black (h1 ! color_img);
          h2 = h1[color_img := assign_masked (h1 ! color_img) sel (cast_color color)]
      in Inr (color_img, h2))"

text \<open>
  \<open>ImageChops.add\<close> with scale 1 and offset 0: per-channel addition clipped to 255, on
  the common extent of the two images.
\<close>

definition add_clip :: "8 word \<Rightarrow> 8 word \<Rightarrow> 8 word" where
  "add_clip a b = (if unat a + unat b > 255 then 255 else a + b)"

definition chop_add_px :: "pixel \<Rightarrow> pixel \<Rightarrow> pixel" where
  "chop_add_px p q =
     (case p of (r1, g1, b1) \<Rightarrow> case q of (r2, g2, b2) \<Rightarrow>
        (add_clip r1 r2, add_clip g1 g2, add_clip b1 b2))"

definition chops_add :: "ndarray \<Rightarrow> ndarray \<Rightarrow> ndarray" where
  "chops_add im1 im2 = map2 (map2 chop_add_px) im1 im2"

definition merge_masks :: "np_heap \<Rightarrow> nat list \<Rightarrow> py_error + (nat \<times> np_heap)" where
  "merge_masks h masks =
     (case masks of
        [] \<Rightarrow> Inl IndexError
      | m0 # rest \<Rightarrow>
          (let out_image = foldl (\<lambda>out_image msk. chops_add out_image (h ! msk)) (h ! m0) rest
           in Inr (length h, h @ [out_image])))"

text \<open>What \<open>color_mask\<close> writes into the copy: every non-black pixel becomes the color.\<close>

definition recolored :: "ndarray \<Rightarrow> pixel \<Rightarrow> ndarray" where
  "recolored img c = map (map (\<lambda>px. if px \<noteq> black then c else px)) img"

section \<open>Python objects (annotations/annotation.py)\<close>

text \<open>
  Lists, dicts and \<open>Annotation\<close> instances are mutable and can be shared, so they live
  in a heap and a value refers to them by address (\<open>VRef\<close>); \<open>None\<close>, booleans,
  integers, strings and tuples are immutable and are values themselves. Dict keys are
  strings, and a dict keeps its items in insertion order. Floats are outside the model.
  The heap is the list of the objects allocated so far: a new object is appended, and its
  address is the length of the heap before.
\<close>

datatype pyval =
  VNone | VBool bool | VInt int | VStr string | VTuple "pyval list" | VRef nat

record annotation =
  images :: pyval
  categories :: pyval
  annotations :: pyval
  info :: pyval

datatype pyobj =
  OList "pyval list" | ODict "(string \<times> pyval) list" | OAnnotation annotation

type_synonym heap = "pyobj list"

definition heap_get :: "heap \<Rightarrow> nat \<Rightarrow> pyobj option" where
  "heap_get h a = (if a < length h then Some (h ! a) else None)"

definition alloc :: "heap \<Rightarrow> pyobj \<Rightarrow> nat \<times> heap" where
  "alloc h ob = (length h, h @ [ob])"

text \<open>\<open>bool(v)\<close>: an instance of \<open>Annotation\<close> defines neither \<open>__bool__\<close> nor \<open>__len__\<close>.\<close>

fun truthy :: "heap \<Rightarrow> pyval \<Rightarrow> bool" where
  "truthy h VNone = False"
| "truthy h (VBool b) = b"
| "truthy h (VInt i) = (i \<noteq> 0)"
| "truthy h (VStr s) = (s \<noteq> [])"
| "truthy h (VTuple xs) = (xs \<noteq> [])"
| "truthy h (VRef a) =
     (case heap_get h a of
        Some (OList xs) \<Rightarrow> xs \<noteq> []
      | Some (ODict kvs) \<Rightarrow> kvs \<noteq> []
      | _ \<Rightarrow> True)"

text \<open>\<open>v or d\<close>, where \<open>d\<close> is a display that builds a new object.\<close>

definition py_or :: "heap \<Rightarrow> pyval \<Rightarrow> pyobj \<Rightarrow> pyval \<times> heap" where
  "py_or h v dflt =
     (if truthy h v then (v, h) else (case alloc h dflt of (a, h') \<Rightarrow> (VRef a, h')))"

text \<open>\<open>isinstance(v, dict)\<close> and \<open>isinstance(v, (list, tuple))\<close>.\<close>

fun isinstance_dict :: "heap \<Rightarrow> pyval \<Rightarrow> bool" where
  "isinstance_dict h (VRef a) = (case heap_get h a of Some (ODict kvs) \<Rightarrow> True | _ \<Rightarrow> False)"
| "isinstance_dict h v = False"

fun isinstance_list_tuple :: "heap \<Rightarrow> pyval \<Rightarrow> bool" where
  "isinstance_list_tuple h (VRef a) = (case heap_get h a of Some (OList xs) \<Rightarrow> True | _ \<Rightarrow> False)"
| "isinstance_list_tuple h (VTuple xs) = True"
| "isinstance_list_tuple h v = False"

text \<open>
  The items a \<open>for\<close> loop visits: the elements of a list or tuple, the keys of a dict,
  the characters of a string; anything else is not iterable.
\<close>

fun iter_items :: "heap \<Rightarrow> pyval \<Rightarrow> py_error + pyval list" where
  "iter_items h (VTuple xs) = Inr xs"
| "iter_items h (VStr s) = Inr (map (\<lambda>c. VStr [c]) s)"
| "iter_items h (VRef a) =
     (case heap_get h a of
        Some (OList xs) \<Rightarrow> Inr xs
      | Some (ODict kvs) \<Rightarrow> Inr (map (\<lambda>kv. VStr (fst kv)) kvs)
      | _ \<Rightarrow> Inl TypeError)"
| "iter_items h v = Inl TypeError"

subsection \<open>Construction\<close>

definition check_value :: "heap \<Rightarrow> pyval \<Rightarrow> py_error + unit" where
  "check_value h v = (if \<not> isinstance_dict h v then Inl ValueError else Inr ())"

fun check_each :: "heap \<Rightarrow> pyval list \<Rightarrow> py_error + unit" where
  "check_each h [] = Inr ()"
| "check_each h (v # vs) =
     (case check_value h v of Inl e \<Rightarrow> Inl e | Inr u \<Rightarrow> check_each h vs)"

definition check_values :: "heap \<Rightarrow> pyval \<Rightarrow> py_error + unit" where
  "check_values h vs =
     (if \<not> isinstance_list_tuple h vs then Inl ValueError
      else case iter_items h vs of Inl e \<Rightarrow> Inl e | Inr xs \<Rightarrow> check_each h xs)"

text \<open>The default \<open>info\<close>; \<open>today\<close> is \<open>datetime.now().strftime("%Y/%m/%d")\<close>.\<close>

definition default_info :: "string \<Rightarrow> pyobj" where
  "default_info today =
     ODict [(''description'', VStr ''Auto-generated by Geolabel-Maker''),
            (''date_created'', VStr today)]"

text \<open>
  \<open>Annotation.__init__\<close>. It returns the address of the new instance and the heap, or
  the exception; an omitted argument is \<open>None\<close>.
\<close>

definition Annotation_init ::
  "heap \<Rightarrow> pyval \<Rightarrow> pyval \<Rightarrow> pyval \<Rightarrow> pyval \<Rightarrow> string \<Rightarrow> py_error + (nat \<times> heap)" where
  "Annotation_init h imgs cats anns info_arg today =
     (case py_or h imgs (OList []) of (imgs1, h1) \<Rightarrow>
      case py_or h1 cats (OList []) of (cats1, h2) \<Rightarrow>
      case py_or h2 anns (OList []) of (anns1, h3) \<Rightarrow>
      case py_or h3 info_arg (default_info today) of (info1, h4) \<Rightarrow>
      case check_values h4 imgs1 of Inl e \<Rightarrow> Inl e | Inr u1 \<Rightarrow>
      case check_values h4 cats1 of Inl e \<Rightarrow> Inl e | Inr u2 \<Rightarrow>
      case check_values h4 anns1 of Inl e \<Rightarrow> Inl e | Inr u3 \<Rightarrow>
      case check_value h4 info1 of Inl e \<Rightarrow> Inl e | Inr u4 \<Rightarrow>
        Inr (alloc h4 (OAnnotation
               \<lparr>images = imgs1, categories = cats1, annotations = anns1, info = info1\<rparr>)))"

subsection \<open>Deep copies\<close>

text \<open>
  \<open>copy.deepcopy\<close> builds, for every object reachable from its argument, one new object
  with copied contents, and keeps the sharing and the cycles between them; it changes no
  existing object. Which addresses the new objects get cannot be observed. The model
  gives every object of the heap a twin, at its own address plus the length of the heap,
  in which every reference is moved by the same amount, and returns the moved argument:
  what the result reaches is a copy, object by object, of what the argument reaches. The
  twins of the other objects cannot be reached from the result, as garbage cannot.
\<close>

fun shift :: "nat \<Rightarrow> pyval \<Rightarrow> pyval" where
  "shift k (VRef a) = VRef (a + k)"
| "shift k (VTuple xs) = VTuple (map (shift k) xs)"
| "shift k v = v"

fun shift_obj :: "nat \<Rightarrow> pyobj \<Rightarrow> pyobj" where
  "shift_obj k (OList xs) = OList (map (shift k) xs)"
| "shift_obj k (ODict kvs) = ODict (map (\<lambda>kv. (fst kv, shift k (snd kv))) kvs)"
| "shift_obj k (OAnnotation s) =
     OAnnotation \<lparr>images = shift k (images s), categories = shift k (categories s),
                  annotations = shift k (annotations s), info = shift k (info s)\<rparr>"

definition deepcopy :: "heap \<Rightarrow> pyval \<Rightarrow> pyval \<times> heap" where
  "deepcopy h v = (shift (length h) v, h @ map (shift_obj (length h)) h)"

subsection \<open>Serialisation\<close>







subsection \<open>Labels of an image\<close>

text \<open>\<open>x[key]\<close>: only a dict can be indexed by a string, and the key must be there.\<close>

fun getitem :: "heap \<Rightarrow> pyval \<Rightarrow> string \<Rightarrow> py_error + pyval" where
  "getitem h (VRef a) key =
     (case heap_get h a of
        Some (ODict kvs) \<Rightarrow> (case map_of kvs key of None \<Rightarrow> Inl KeyError | Some v \<Rightarrow> Inr v)
      | _ \<Rightarrow> Inl TypeError)"
| "getitem h v key = Inl TypeError"

text \<open>\<open>v == i\<close> for an integer \<open>i\<close>: \<open>True\<close> and \<open>False\<close> are the integers 1 and 0.\<close>

fun py_eq_int :: "pyval \<Rightarrow> int \<Rightarrow> bool" where
  "py_eq_int (VInt j) i = (j = i)"
| "py_eq_int (VBool b) i = ((if b then 1 else 0) = i)"
| "py_eq_int v i = False"

text \<open>\<open>xs.append(v)\<close> on the list at an address.\<close>

definition list_append :: "heap \<Rightarrow> nat \<Rightarrow> pyval \<Rightarrow> heap" where
  "list_append h a v = (case heap_get h a of Some (OList xs) \<Rightarrow> h[a := OList (xs @ [v])] | _ \<Rightarrow> h)"

fun labels_loop :: "heap \<Rightarrow> nat \<Rightarrow> int \<Rightarrow> pyval list \<Rightarrow> py_error + heap" where
  "labels_loop h labels image_id [] = Inr h"
| "labels_loop h labels image_id (annotation # rest) =
     (case getitem h annotation ''image_id'' of
        Inl e \<Rightarrow> Inl e
      | Inr v \<Rightarrow>
          if py_eq_int v image_id
          then (case deepcopy h annotation of (c, h1) \<Rightarrow>
                  labels_loop (list_append h1 labels c) labels image_id rest)
          else labels_loop h labels image_id rest)"

definition get_labels :: "heap \<Rightarrow> nat \<Rightarrow> int \<Rightarrow> py_error + (pyval \<times> heap)" where
  "get_labels h self image_id =
     (case heap_get h self of
        Some (OAnnotation s) \<Rightarrow>
          (case alloc h (OList []) of (labels, h0) \<Rightarrow>
           case iter_items h0 (annotations s) of
             Inl e \<Rightarrow> Inl e
           | Inr xs \<Rightarrow>
               (case labels_loop h0 labels image_id xs of
                  Inl e \<Rightarrow> Inl e
                | Inr h' \<Rightarrow> Inr (VRef labels, h')))
      | _ \<Rightarrow> Inl AttributeError)"

section \<open>Notions used to state the properties\<close>

text \<open>
  The addresses a value or an object mentions. A value is valid in a heap when all of
  them are allocated; a heap is closed when all its objects mention allocated addresses
  only, as every Python heap is.
\<close>

fun refs :: "pyval \<Rightarrow> nat set" where
  "refs (VRef a) = {a}"
| "refs (VTuple xs) = (\<Union>x \<in> set xs. refs x)"
| "refs v = {}"

fun refs_obj :: "pyobj \<Rightarrow> nat set" where
  "refs_obj (OList xs) = (\<Union>x \<in> set xs. refs x)"
| "refs_obj (ODict kvs) = (\<Union>kv \<in> set kvs. refs (snd kv))"
| "refs_obj (OAnnotation s) =
     refs (images s) \<union> refs (categories s) \<union> refs (annotations s) \<union> refs (info s)"

definition valid :: "heap \<Rightarrow> pyval \<Rightarrow> bool" where
  "valid h v = (\<forall>a \<in> refs v. a < length h)"

definition closed_heap :: "heap \<Rightarrow> bool" where
  "closed_heap h = (\<forall>ob \<in> set h. \<forall>a \<in> refs_obj ob. a < length h)"

text \<open>The addresses that can be reached from a value by following references.\<close>

inductive reach :: "heap \<Rightarrow> pyval \<Rightarrow> nat \<Rightarrow> bool" for h :: heap and v :: pyval where
  reach_ref: "a \<in> refs v \<Longrightarrow> reach h v a"
| reach_step: "reach h v a \<Longrightarrow> a < length h \<Longrightarrow> b \<in> refs_obj (h ! a) \<Longrightarrow> reach h v b"

text \<open>
  What can be read from a value by following references to a given depth, leaving out
  the dict items whose key is in \<open>K\<close>: two values with the same reading at every depth
  cannot be told apart by looking at them, the items with a key in \<open>K\<close> aside.
\<close>

datatype pytree =
  TNone | TBool bool | TInt int | TStr string | TTuple "pytree list" | TList "pytree list"
  | TDict "(string \<times> pytree) list" | TAnnotation pytree pytree pytree pytree | TCut

fun reading :: "string set \<Rightarrow> nat \<Rightarrow> heap \<Rightarrow> pyval \<Rightarrow> pytree" where
  "reading K d h VNone = TNone"
| "reading K d h (VBool b) = TBool b"
| "reading K d h (VInt i) = TInt i"
| "reading K d h (VStr s) = TStr s"
| "reading K d h (VTuple xs) = TTuple (map (reading K d h) xs)"
| "reading K 0 h (VRef a) = TCut"
| "reading K (Suc d) h (VRef a) =
     (case heap_get h a of
        None \<Rightarrow> TCut
      | Some (OList xs) \<Rightarrow> TList (map (reading K d h) xs)
      | Some (ODict kvs) \<Rightarrow>
          TDict (map (\<lambda>kv. (fst kv, reading K d h (snd kv))) (filter (\<lambda>kv. fst kv \<notin> K) kvs))
      | Some (OAnnotation s) \<Rightarrow>
          TAnnotation (reading K d h (images s)) (reading K d h (categories s))
            (reading K d h (annotations s)) (reading K d h (info s)))"

definition same_apart :: "string set \<Rightarrow> heap \<Rightarrow> pyval \<Rightarrow> heap \<Rightarrow> pyval \<Rightarrow> bool" where
  "same_apart K h v h' v' = (\<forall>d. reading K d h v = reading K d h' v')"

definition same_reading :: "heap \<Rightarrow> pyval \<Rightarrow> heap \<Rightarrow> pyval \<Rightarrow> bool" where
  "same_reading h v h' v' = same_apart {} h v h' v'"


text \<open>A list or tuple all of whose elements are dicts.\<close>

fun seq_of_dicts :: "heap \<Rightarrow> pyval \<Rightarrow> bool" where
  "seq_of_dicts h (VTuple xs) = list_all (isinstance_dict h) xs"
| "seq_of_dicts h (VRef a) =
     (case heap_get h a of Some (OList xs) \<Rightarrow> list_all (isinstance_dict h) xs | _ \<Rightarrow> False)"
| "seq_of_dicts h v = False"

text \<open>
  What the constructor accepts for an argument: a falsy value (it is replaced by the
  default), or a value of the right shape.
\<close>

definition accepts_seq :: "heap \<Rightarrow> pyval \<Rightarrow> bool" where
  "accepts_seq h v = (if truthy h v then seq_of_dicts h v else True)"

definition accepts_info :: "heap \<Rightarrow> pyval \<Rightarrow> bool" where
  "accepts_info h v = (if truthy h v then isinstance_dict h v else True)"

text \<open>
  What the constructor stores for an argument: the argument itself when it is truthy,
  otherwise a new object with the contents of the default.
\<close>

definition stored :: "heap \<Rightarrow> heap \<Rightarrow> pyval \<Rightarrow> pyobj \<Rightarrow> pyval \<Rightarrow> bool" where
  "stored h h' arg dflt v =
     (if truthy h arg then v = arg
      else \<exists>i. v = VRef i \<and> length h \<le> i \<and> heap_get h' i = Some dflt)"

text \<open>The annotation records that \<open>get_labels\<close> selects: \<open>x["image_id"] == image_id\<close>.\<close>

definition has_image_id :: "heap \<Rightarrow> pyval \<Rightarrow> bool" where
  "has_image_id h x = (case getitem h x ''image_id'' of Inl e \<Rightarrow> False | Inr v \<Rightarrow> True)"

definition label_of :: "heap \<Rightarrow> int \<Rightarrow> pyval \<Rightarrow> bool" where
  "label_of h image_id x =
     (case getitem h x ''image_id'' of Inl e \<Rightarrow> False | Inr v \<Rightarrow> py_eq_int v image_id)"

text \<open>
  Two invariants of the iterations. From an address \<open>n\<close> on, the objects of the heap mention
  only addresses from \<open>n\<close> on; and a later heap has the objects of an earlier one, where
  a dict may have other items.
\<close>

definition upper :: "nat \<Rightarrow> heap \<Rightarrow> bool" where
  "upper n h = (\<forall>a. n \<le> a \<and> a < length h \<longrightarrow> (\<forall>b \<in> refs_obj (h ! a). n \<le> b))"


text \<open>
  An example heap: an instance, at address 7, with no images, no categories and the three
  annotation records \<open>{"id": 0, "image_id": 1}\<close>, \<open>{"id": 1, "image_id": 2}\<close> and
  \<open>{"id": 2, "image_id": 2}\<close>.
\<close>

definition example_heap :: heap where
  "example_heap =
     [OList [], OList [],
      ODict [(''id'', VInt 0), (''image_id'', VInt 1)],
      ODict [(''id'', VInt 1), (''image_id'', VInt 2)],
      ODict [(''id'', VInt 2), (''image_id'', VInt 2)],
      OList [VRef 2, VRef 3, VRef 4],
      ODict [(''description'', VStr ''example'')],
      OAnnotation \<lparr>images = VRef 0, categories = VRef 1, annotations = VRef 5, info = VRef 6\<rparr>]"



section \<open>Tile math: properties\<close>







text \<open>
  C3. \<open>bbox2xyz\<close> takes \<open>x_min\<close> and \<open>y_max\<close> from the minimum-latitude corner and
  \<open>x_max\<close> and \<open>y_min\<close> from the maximum-latitude corner, whenever both point
  conversions return.
\<close>

theorem bbox2xyz_corners:
  "latlon2xyz lat_min lon_min z = Inr p \<Longrightarrow> latlon2xyz lat_max lon_max z = Inr q \<Longrightarrow>
   bbox2xyz lon_min lat_min lon_max lat_max z = Inr (fst p, snd q, fst q, snd p)"
  by (simp add: bbox2xyz_def split: prod.splits)

lemma latlon2xyz_equator: "latlon2xyz 0 lon z = Inr (\<lfloor>pow2 z * ((lon + 180) / 360)\<rfloor>, \<lfloor>pow2 z / 2\<rfloor>)"
  by (simp add: latlon2xyz_def sec_def py_log_def radians_def Let_def)

theorem bbox2xyz_corners_witness:
  "latlon2xyz 0 (- 180) 1 = Inr (0, 1) \<and> latlon2xyz 0 180 1 = Inr (2, 1) \<and>
   bbox2xyz (- 180) 0 180 0 1 = Inr (0, 1, 2, 1)"
proof -
  have a: "latlon2xyz 0 (- 180) 1 = Inr (0, 1)"
    by (simp add: latlon2xyz_equator pow2_def)
  have b: "latlon2xyz 0 180 1 = Inr (2, 1)"
    by (simp add: latlon2xyz_equator pow2_def)
  show ?thesis using a b bbox2xyz_corners [OF a b] by simp
qed

section \<open>Mask compositor: properties\<close>

lemma map2_map_same: "map2 f xs (map g xs) = map (\<lambda>x. f x (g x)) xs"
  by (induction xs) simp_all

lemma assign_masked_non_black: "assign_masked img (non_black img) c = recolored img c"
  by (simp add: assign_masked_def non_black_def recolored_def map2_map_same)

lemma color_mask_eq:
  "color_mask h msk color = Inr (length h, h @ [recolored (h ! msk) (cast_color color)])"
  by (simp add: color_mask_def Let_def assign_masked_non_black)

lemma recolored_idem: "recolored (recolored img c) c = recolored img c"
  by (simp add: recolored_def)

lemma recolored_black: "recolored img black = map (map (\<lambda>px. black)) img"
  by (simp add: recolored_def)

lemma cast_color_black: "cast_color (0, 0, 0) = black"
  by (simp add: cast_color_def black_def)

text \<open>
  C4 (as stated, refuted). The claim says that black as the target color raises. On a
  mask of one colored and one black pixel the call returns: the new array, at address 1,
  is entirely black.
\<close>

theorem color_mask_black_counterexample:
  "color_mask [[[(1, 2, 3), (0, 0, 0)]]] 0 (0, 0, 0)
   = Inr (1, [[[(1, 2, 3), (0, 0, 0)]], [[(0, 0, 0), (0, 0, 0)]]])"
  by (simp add: color_mask_def Let_def non_black_def assign_masked_def cast_color_def black_def)

text \<open>
  C4 (amended). With black as the target color \<open>color_mask\<close> raises nothing: it returns
  a new array of the shape of the input in which every pixel is black.
\<close>

theorem color_mask_black_returns:
  "color_mask h msk (0, 0, 0) = Inr (length h, h @ [map (map (\<lambda>px. black)) (h ! msk)])"
  by (simp add: color_mask_eq cast_color_black recolored_black)

text \<open>
  C5. \<open>merge_masks\<close> on an empty sequence fails: \<open>masks[0]\<close> raises IndexError, and no
  array is returned.
\<close>

theorem merge_masks_empty: "merge_masks h [] = Inl IndexError"
  by (simp add: merge_masks_def)

text \<open>
  C8. Recoloring is idempotent: for every mask and every color (black or not), both calls
  return, and the array returned by the second call, made on the result of the first
  with the same color, has the pixels of the array returned by the first.
\<close>

theorem color_mask_idempotent:
  "(case color_mask h msk c of
      Inl e \<Rightarrow> False
    | Inr (a1, h1) \<Rightarrow>
        (case color_mask h1 a1 c of
           Inl e \<Rightarrow> False
         | Inr (a2, h2) \<Rightarrow> h2 ! a2 = h1 ! a1))"
  by (simp add: color_mask_eq recolored_idem nth_append)

text \<open>
  C10. \<open>color_mask\<close> does not mutate its input. For a mask that is in the store, the call
  returns a new address, different from the input's; every array that was in the store,
  the input among them, has the pixels it had.
\<close>

theorem color_mask_frame:
  "msk < length h \<Longrightarrow>
   \<exists>a h'. color_mask h msk color = Inr (a, h') \<and> a \<noteq> msk \<and> h' ! msk = h ! msk \<and>
          length h' = Suc (length h) \<and> take (length h) h' = h"
  by (simp add: color_mask_eq nth_append)

theorem color_mask_frame_witness:
  "(0::nat) < length [[[(1, 2, 3), (0, 0, 0)]] :: ndarray] \<and>
   (\<exists>a h'. color_mask [[[(1, 2, 3), (0, 0, 0)]]] 0 (255, 0, 0) = Inr (a, h') \<and> a \<noteq> 0 \<and>
           h' ! 0 = [[(1, 2, 3), (0, 0, 0)]] \<and> length h' = 2 \<and>
           take 1 h' = [[[(1, 2, 3), (0, 0, 0)]]])"
  using color_mask_frame [of 0 "[[[(1, 2, 3), (0, 0, 0)]]]" "(255, 0, 0)"]
  by (simp add: numeral_2_eq_2)

section \<open>Construction: properties\<close>

lemma check_each_eq:
  "check_each h xs = (if list_all (isinstance_dict h) xs then Inr () else Inl ValueError)"
  by (induction xs) (simp_all add: check_value_def)

lemma check_values_eq:
  "check_values h v = (if seq_of_dicts h v then Inr () else Inl ValueError)"
  by (cases v) (auto simp: check_values_def check_each_eq split: option.splits pyobj.splits)

lemma heap_get_append: "a < length h \<Longrightarrow> heap_get (h @ ext) a = heap_get h a"
  by (simp add: heap_get_def nth_append)

lemma isinstance_dict_append:
  "valid h v \<Longrightarrow> isinstance_dict (h @ ext) v = isinstance_dict h v"
  by (cases v) (simp_all add: valid_def heap_get_append)

lemma truthy_append: "valid h v \<Longrightarrow> truthy (h @ ext) v = truthy h v"
  by (cases v) (simp_all add: valid_def heap_get_append)

lemma closed_valid_elem:
  "closed_heap h \<Longrightarrow> a < length h \<Longrightarrow> h ! a = OList xs \<Longrightarrow> x \<in> set xs \<Longrightarrow> valid h x"
  unfolding closed_heap_def valid_def
  by (metis nth_mem refs_obj.simps(1) UN_I)

lemma list_all_dict_append:
  "(\<And>x. x \<in> set xs \<Longrightarrow> valid h x) \<Longrightarrow>
   list_all (isinstance_dict (h @ ext)) xs = list_all (isinstance_dict h) xs"
  by (simp add: list_all_iff isinstance_dict_append)

lemma seq_of_dicts_append:
  assumes "closed_heap h" "valid h v"
  shows "seq_of_dicts (h @ ext) v = seq_of_dicts h v"
proof (cases v)
  case (VTuple xs)
  have "\<And>x. x \<in> set xs \<Longrightarrow> valid h x"
    using assms(2) VTuple by (auto simp: valid_def)
  then show ?thesis using VTuple
    by (simp add: list_all_dict_append)
next
  case (VRef a)
  then have a: "a < length h" using assms(2) by (simp add: valid_def)
  show ?thesis
  proof (cases "h ! a")
    case (OList xs)
    have "\<And>x. x \<in> set xs \<Longrightarrow> valid h x"
      using closed_valid_elem [OF assms(1) a OList] .
    then have "list_all (isinstance_dict (h @ ext)) xs = list_all (isinstance_dict h) xs"
      by (rule list_all_dict_append)
    then show ?thesis using VRef a OList
      by (simp add: heap_get_def nth_append)
  qed (use VRef a in \<open>simp_all add: heap_get_def nth_append\<close>)
qed simp_all

lemma closed_snoc: "closed_heap h \<Longrightarrow> (\<forall>a \<in> refs_obj ob. a \<le> length h) \<Longrightarrow> closed_heap (h @ [ob])"
  by (auto simp: closed_heap_def less_Suc_eq_le dest: less_imp_le)

lemma valid_append: "valid h v \<Longrightarrow> valid (h @ ext) v"
  by (auto simp: valid_def)

lemma refs_default_info: "refs_obj (default_info today) = {}"
  by (simp add: default_info_def)

text \<open>The effect of one \<open>or\<close>.\<close>

lemma py_or_ext:
  assumes "closed_heap h" "valid h v" "refs_obj dflt = {}" "py_or h v dflt = (v', h')"
  shows "\<exists>ext. h' = h @ ext" "closed_heap h'" "valid h' v'" "stored h (h' @ ext') v dflt v'"
proof -
  show "\<exists>ext. h' = h @ ext" using assms(4)
    by (auto simp: py_or_def alloc_def split: if_splits)
  show "closed_heap h'" using assms
    by (auto simp: py_or_def alloc_def closed_snoc split: if_splits)
  show "valid h' v'" using assms
    by (auto simp: py_or_def alloc_def valid_def split: if_splits)
  show "stored h (h' @ ext') v dflt v'"
  proof (cases "truthy h v")
    case True
    then show ?thesis using assms(4) by (simp add: py_or_def stored_def)
  next
    case False
    then have "v' = VRef (length h)" "h' = h @ [dflt]"
      using assms(4) by (simp_all add: py_or_def alloc_def)
    moreover have "heap_get ((h @ [dflt]) @ ext') (length h) = Some dflt"
      by (simp add: heap_get_def nth_append)
    ultimately show ?thesis using False by (simp add: stored_def)
  qed
qed

lemma py_or_list:
  assumes "closed_heap h" "valid h v" "py_or h v (OList []) = (v', h')"
  shows "seq_of_dicts (h' @ ext') v' = accepts_seq h v"
proof (cases "truthy h v")
  case True
  then show ?thesis using assms by (simp add: py_or_def seq_of_dicts_append accepts_seq_def)
next
  case False
  then have "v' = VRef (length h)" "h' = h @ [OList []]"
    using assms(3) by (simp_all add: py_or_def alloc_def)
  then show ?thesis using False by (simp add: heap_get_def nth_append accepts_seq_def)
qed

lemma py_or_info:
  assumes "valid h v" "py_or h v (default_info today) = (v', h')"
  shows "isinstance_dict (h' @ ext') v' = accepts_info h v"
proof (cases "truthy h v")
  case True
  then show ?thesis using assms by (simp add: py_or_def isinstance_dict_append accepts_info_def)
next
  case False
  then have "v' = VRef (length h)" "h' = h @ [default_info today]"
    using assms(2) by (simp_all add: py_or_def alloc_def)
  then show ?thesis using False
    by (simp add: heap_get_def nth_append default_info_def accepts_info_def)
qed

lemma stored_mono:
  "stored h1 h' arg dflt v \<Longrightarrow> truthy h1 arg = truthy h arg \<Longrightarrow> length h \<le> length h1 \<Longrightarrow>
   stored h h' arg dflt v"
  by (auto simp: stored_def)

text \<open>
  The constructor, case by case: it raises ValueError when an argument is not accepted,
  and otherwise returns a new instance that holds what each argument stores.
\<close>

lemma Annotation_init_cases:
  assumes "closed_heap h" "valid h imgs" "valid h cats" "valid h anns" "valid h info_arg"
  shows "if accepts_seq h imgs \<and> accepts_seq h cats \<and> accepts_seq h anns \<and> accepts_info h info_arg
         then \<exists>self h' s. Annotation_init h imgs cats anns info_arg today = Inr (self, h') \<and>
                length h \<le> self \<and> heap_get h' self = Some (OAnnotation s) \<and>
                take (length h) h' = h \<and>
                stored h h' imgs (OList []) (images s) \<and>
                stored h h' cats (OList []) (categories s) \<and>
                stored h h' anns (OList []) (annotations s) \<and>
                stored h h' info_arg (default_info today) (info s)
         else Annotation_init h imgs cats anns info_arg today = Inl ValueError"
proof -
  obtain imgs1 h1 where o1: "py_or h imgs (OList []) = (imgs1, h1)"
    by (cases "py_or h imgs (OList [])")
  obtain cats1 h2 where o2: "py_or h1 cats (OList []) = (cats1, h2)"
    by (cases "py_or h1 cats (OList [])")
  obtain anns1 h3 where o3: "py_or h2 anns (OList []) = (anns1, h3)"
    by (cases "py_or h2 anns (OList [])")
  obtain info1 h4 where o4: "py_or h3 info_arg (default_info today) = (info1, h4)"
    by (cases "py_or h3 info_arg (default_info today)")
  have r0: "refs_obj (OList []) = {}" by simp
  note r1 = refs_default_info [of today]
  from py_or_ext(1) [OF assms(1,2) r0 o1] obtain e1 where e1: "h1 = h @ e1" by blast
  have c1: "closed_heap h1" by (rule py_or_ext(2) [OF assms(1,2) r0 o1])
  have v1: "valid h1 cats" "valid h1 anns" "valid h1 info_arg"
    using assms e1 by (simp_all add: valid_append)
  from py_or_ext(1) [OF c1 v1(1) r0 o2] obtain e2 where e2: "h2 = h1 @ e2" by blast
  have c2: "closed_heap h2" by (rule py_or_ext(2) [OF c1 v1(1) r0 o2])
  have v2: "valid h2 anns" "valid h2 info_arg"
    using v1 e2 by (simp_all add: valid_append)
  from py_or_ext(1) [OF c2 v2(1) r0 o3] obtain e3 where e3: "h3 = h2 @ e3" by blast
  have c3: "closed_heap h3" by (rule py_or_ext(2) [OF c2 v2(1) r0 o3])
  have v3: "valid h3 info_arg"
    using v2 e3 by (simp_all add: valid_append)
  from py_or_ext(1) [OF c3 v3 r1 o4] obtain e4 where e4: "h4 = h3 @ e4" by blast
  have h2: "h2 = h @ (e1 @ e2)" and h3: "h3 = h @ (e1 @ e2 @ e3)"
    using e1 e2 e3 by simp_all
  have t2: "truthy h1 cats = truthy h cats" "seq_of_dicts h1 cats = seq_of_dicts h cats"
    unfolding e1 using assms by (simp_all add: truthy_append seq_of_dicts_append)
  have t3: "truthy h2 anns = truthy h anns" "seq_of_dicts h2 anns = seq_of_dicts h anns"
    unfolding h2 using assms by (simp_all add: truthy_append seq_of_dicts_append)
  have t4: "truthy h3 info_arg = truthy h info_arg"
    "isinstance_dict h3 info_arg = isinstance_dict h info_arg"
    unfolding h3 using assms by (simp_all add: truthy_append isinstance_dict_append)
  have "seq_of_dicts (h1 @ (e2 @ e3 @ e4)) imgs1 = accepts_seq h imgs"
    by (rule py_or_list [OF assms(1,2) o1])
  then have s1: "seq_of_dicts h4 imgs1 = accepts_seq h imgs"
    using e2 e3 e4 by simp
  have "seq_of_dicts (h2 @ (e3 @ e4)) cats1 = accepts_seq h1 cats"
    by (rule py_or_list [OF c1 v1(1) o2])
  then have s2: "seq_of_dicts h4 cats1 = accepts_seq h cats"
    using e3 e4 t2 by (simp add: accepts_seq_def)
  have "seq_of_dicts (h3 @ e4) anns1 = accepts_seq h2 anns"
    by (rule py_or_list [OF c2 v2(1) o3])
  then have s3: "seq_of_dicts h4 anns1 = accepts_seq h anns"
    using e4 t3 by (simp add: accepts_seq_def)
  have "isinstance_dict (h4 @ []) info1 = accepts_info h3 info_arg"
    by (rule py_or_info [OF v3 o4])
  then have s4: "isinstance_dict h4 info1 = accepts_info h info_arg"
    using t4 by (simp add: accepts_info_def)
  define s where "s = \<lparr>images = imgs1, categories = cats1, annotations = anns1, info = info1\<rparr>"
  define ob where "ob = OAnnotation s"
  have st1: "stored h (h4 @ [ob]) imgs (OList []) imgs1"
    using py_or_ext(4) [OF assms(1,2) r0 o1, of "e2 @ e3 @ e4 @ [ob]"] e2 e3 e4 by simp
  have "stored h1 (h4 @ [ob]) cats (OList []) cats1"
    using py_or_ext(4) [OF c1 v1(1) r0 o2, of "e3 @ e4 @ [ob]"] e3 e4 by simp
  then have st2: "stored h (h4 @ [ob]) cats (OList []) cats1"
    by (rule stored_mono) (use t2 e1 in simp_all)
  have "stored h2 (h4 @ [ob]) anns (OList []) anns1"
    using py_or_ext(4) [OF c2 v2(1) r0 o3, of "e4 @ [ob]"] e4 by simp
  then have st3: "stored h (h4 @ [ob]) anns (OList []) anns1"
    by (rule stored_mono) (use t3 h2 in simp_all)
  have "stored h3 (h4 @ [ob]) info_arg (default_info today) info1"
    using py_or_ext(4) [OF c3 v3 r1 o4, of "[ob]"] by simp
  then have st4: "stored h (h4 @ [ob]) info_arg (default_info today) info1"
    by (rule stored_mono) (use t4 h3 in simp_all)
  have take: "take (length h) (h4 @ [ob]) = h"
    using e1 e2 e3 e4 by simp
  have len: "length h \<le> length h4"
    using e1 e2 e3 e4 by simp
  have eq: "Annotation_init h imgs cats anns info_arg today =
      (if accepts_seq h imgs \<and> accepts_seq h cats \<and> accepts_seq h anns \<and> accepts_info h info_arg
       then Inr (length h4, h4 @ [ob]) else Inl ValueError)"
    using o1 o2 o3 o4 s1 s2 s3 s4
    by (simp add: Annotation_init_def check_values_eq check_value_def alloc_def ob_def s_def)
  have get: "heap_get (h4 @ [ob]) (length h4) = Some (OAnnotation s)"
    by (simp add: heap_get_def ob_def)
  have sel: "images s = imgs1" "categories s = cats1" "annotations s = anns1" "info s = info1"
    by (simp_all add: s_def)
  have st: "stored h (h4 @ [ob]) imgs (OList []) (images s)"
    "stored h (h4 @ [ob]) cats (OList []) (categories s)"
    "stored h (h4 @ [ob]) anns (OList []) (annotations s)"
    "stored h (h4 @ [ob]) info_arg (default_info today) (info s)"
    using st1 st2 st3 st4 by (simp_all only: sel)
  show ?thesis
  proof (cases "accepts_seq h imgs \<and> accepts_seq h cats \<and> accepts_seq h anns \<and> accepts_info h info_arg")
    case True
    have r: "Annotation_init h imgs cats anns info_arg today = Inr (length h4, h4 @ [ob])"
      using eq True by simp
    show ?thesis
      unfolding if_P [OF True]
      by (rule exI [of _ "length h4"], rule exI [of _ "h4 @ [ob]"], rule exI [of _ s])
        (intro conjI r len get take st)
  next
    case False
    have "Annotation_init h imgs cats anns info_arg today = Inl ValueError"
      using eq False by simp
    then show ?thesis unfolding if_not_P [OF False] .
  qed
qed

section \<open>Heaps and deep copies: properties\<close>

lemma refs_shift: "refs (shift k v) = (\<lambda>a. a + k) ` refs v"
  by (induction v) auto

lemma refs_obj_shift: "refs_obj (shift_obj k ob) = (\<lambda>a. a + k) ` refs_obj ob"
  by (cases ob) (auto simp: refs_shift)

lemma deepcopy_eq: "deepcopy h v = (shift (length h) v, h @ map (shift_obj (length h)) h)"
  by (simp add: deepcopy_def)

lemma twin_nth:
  "a < length h \<Longrightarrow> (h @ map (shift_obj k) h) ! (a + length h) = shift_obj k (h ! a)"
  by (simp add: nth_append)

lemma heap_get_twin:
  "heap_get (h @ map (shift_obj k) h) (a + length h) = map_option (shift_obj k) (heap_get h a)"
  by (simp add: heap_get_def nth_append)

lemma closed_heap_iff: "closed_heap h = (\<forall>a < length h. \<forall>b \<in> refs_obj (h ! a). b < length h)"
  by (simp add: closed_heap_def all_set_conv_all_nth)

lemma closed_twin:
  assumes "closed_heap h"
  shows "closed_heap (h @ map (shift_obj (length h)) h)"
  unfolding closed_heap_iff
proof (intro allI impI ballI)
  fix a b
  assume a: "a < length (h @ map (shift_obj (length h)) h)"
    and b: "b \<in> refs_obj ((h @ map (shift_obj (length h)) h) ! a)"
  show "b < length (h @ map (shift_obj (length h)) h)"
  proof (cases "a < length h")
    case True
    then have "b < length h" using assms b by (auto simp: closed_heap_iff nth_append)
    then show ?thesis by simp
  next
    case False
    then have a': "a - length h < length h" using a by simp
    from False a b have "b \<in> (\<lambda>c. c + length h) ` refs_obj (h ! (a - length h))"
      by (simp add: nth_append refs_obj_shift)
    then obtain c where "c \<in> refs_obj (h ! (a - length h))" "b = c + length h" by auto
    moreover from this a' assms have "c < length h" by (auto simp: closed_heap_iff)
    ultimately show ?thesis by simp
  qed
qed

lemma upper_twin:
  assumes "upper n h" "n \<le> length h"
  shows "upper n (h @ map (shift_obj (length h)) h)"
  unfolding upper_def
proof (intro allI impI ballI)
  fix a b
  assume a: "n \<le> a \<and> a < length (h @ map (shift_obj (length h)) h)"
    and b: "b \<in> refs_obj ((h @ map (shift_obj (length h)) h) ! a)"
  show "n \<le> b"
  proof (cases "a < length h")
    case True
    then show ?thesis using assms(1) a b by (auto simp: upper_def nth_append)
  next
    case False
    then have "a - length h < length h" using a by auto
    with False a b have "b \<in> (\<lambda>c. c + length h) ` refs_obj (h ! (a - length h))"
      by (simp add: nth_append refs_obj_shift)
    then show ?thesis using assms(2) by auto
  qed
qed

lemma reading_agree:
  assumes "\<And>a. a \<in> S \<Longrightarrow> heap_get h' a = heap_get h a"
    and "\<And>a ob. a \<in> S \<Longrightarrow> heap_get h a = Some ob \<Longrightarrow> refs_obj ob \<subseteq> S"
  shows "refs v \<subseteq> S \<Longrightarrow> reading K d h' v = reading K d h v"
proof (induction d arbitrary: v)
  case 0
  then show ?case by (induction v) (auto simp: SUP_le_iff)
next
  case (Suc d)
  from Suc.prems show ?case
  proof (induction v)
    case (VRef a)
    then have a: "a \<in> S" by simp
    show ?case
    proof (cases "heap_get h a")
      case None
      then show ?thesis using assms(1) [OF a] by simp
    next
      case (Some ob)
      note sub = assms(2) [OF a Some]
      show ?thesis
      proof (cases ob)
        case (OList xs)
        have "\<And>x. x \<in> set xs \<Longrightarrow> reading K d h' x = reading K d h x"
          using sub OList by (intro Suc.IH) auto
        then show ?thesis using assms(1) [OF a] Some OList by simp
      next
        case (ODict kvs)
        have "\<And>kv. kv \<in> set kvs \<Longrightarrow> reading K d h' (snd kv) = reading K d h (snd kv)"
          using sub ODict by (intro Suc.IH) auto
        then show ?thesis using assms(1) [OF a] Some ODict by simp
      next
        case (OAnnotation s)
        have "reading K d h' (images s) = reading K d h (images s)"
          "reading K d h' (categories s) = reading K d h (categories s)"
          "reading K d h' (annotations s) = reading K d h (annotations s)"
          "reading K d h' (info s) = reading K d h (info s)"
          using sub OAnnotation by (auto intro!: Suc.IH)
        then show ?thesis using assms(1) [OF a] Some OAnnotation by simp
      qed
    qed
  qed (auto simp: SUP_le_iff)
qed

lemma reading_twin:
  "reading K d (h @ map (shift_obj (length h)) h) (shift (length h) v) = reading K d h v"
proof (induction d arbitrary: v)
  case 0
  then show ?case by (induction v) auto
next
  case (Suc d)
  show ?case
  proof (induction v)
    case (VRef a)
    show ?case
    proof (cases "heap_get h a")
      case None
      then show ?thesis using heap_get_twin [of h "length h" a] by simp
    next
      case (Some ob)
      then show ?thesis using heap_get_twin [of h "length h" a] Suc.IH
        by (cases ob) (simp_all add: filter_map comp_def)
    qed
  qed auto
qed

lemma reach_within:
  assumes "refs v \<subseteq> S"
    and "\<And>a b. a \<in> S \<Longrightarrow> a < length h \<Longrightarrow> b \<in> refs_obj (h ! a) \<Longrightarrow> b \<in> S"
  shows "reach h v a \<Longrightarrow> a \<in> S"
  by (induction rule: reach.induct) (use assms in auto)

lemma heap_get_take:
  "l \<le> length h \<Longrightarrow> heap_get (take l h) a = (if a < l then heap_get h a else None)"
  by (simp add: heap_get_def)

lemma getitem_agree:
  "(\<And>a. a \<in> refs x \<Longrightarrow> heap_get h' a = heap_get h a) \<Longrightarrow> getitem h' x key = getitem h x key"
  by (cases x) simp_all

lemma closed_heap_update:
  "closed_heap h \<Longrightarrow> a < length h \<Longrightarrow> (\<forall>b \<in> refs_obj ob. b < length h) \<Longrightarrow>
   closed_heap (h[a := ob])"
  unfolding closed_heap_iff by (auto simp: nth_list_update)

lemma upper_update_below: "upper n h \<Longrightarrow> a < length h \<Longrightarrow> a < n \<Longrightarrow> upper n (h[a := ob])"
  unfolding upper_def by (auto simp: nth_list_update)

lemma closed_heap_get:
  "closed_heap h \<Longrightarrow> heap_get h a = Some ob \<Longrightarrow> b \<in> refs_obj ob \<Longrightarrow> b < length h"
  by (auto simp: closed_heap_iff heap_get_def split: if_splits)

text \<open>A value that is valid in a closed_heap prefix of the heap reads the same in the heap.\<close>

lemma reading_prefix:
  assumes "closed_heap (take l h)" "l \<le> length h" "valid (take l h) x"
  shows "reading K d h x = reading K d (take l h) x"
proof (rule reading_agree [where S = "{a. a < l}"])
  show "heap_get h a = heap_get (take l h) a" if "a \<in> {a. a < l}" for a
    using that assms(2) by (simp add: heap_get_take)
  show "refs_obj ob \<subseteq> {a. a < l}" if "a \<in> {a. a < l}" "heap_get (take l h) a = Some ob" for a ob
    using closed_heap_get [OF assms(1) that(2)] assms(2) by auto
  show "refs x \<subseteq> {a. a < l}" using assms(2,3) by (auto simp: valid_def)
qed

text \<open>
  In the twin block, objects mention the twin block only; so a value in the block reads
  the same in every heap that has the block.
\<close>

lemma reading_block:
  assumes "closed_heap h" "k = length h" "valid h x"
    and "\<And>a. k \<le> a \<Longrightarrow> a < 2 * k \<Longrightarrow> heap_get h' a = heap_get (h @ map (shift_obj k) h) a"
  shows "reading K d h' (shift k x) = reading K d h x"
proof -
  let ?h1 = "h @ map (shift_obj k) h"
  have "reading K d h' (shift k x) = reading K d ?h1 (shift k x)"
  proof (rule reading_agree [where S = "{a. k \<le> a \<and> a < 2 * k}"])
    show "heap_get h' a = heap_get ?h1 a" if "a \<in> {a. k \<le> a \<and> a < 2 * k}" for a
      using that assms(4) by simp
    show "refs_obj ob \<subseteq> {a. k \<le> a \<and> a < 2 * k}"
      if "a \<in> {a. k \<le> a \<and> a < 2 * k}" "heap_get ?h1 a = Some ob" for a ob
    proof -
      from that(1) assms(2) have a: "a - k < length h" "\<not> a < length h" by auto
      with that(2) assms(2) have "ob = shift_obj k (h ! (a - k))"
        by (auto simp: heap_get_def nth_append split: if_splits)
      then have "refs_obj ob = (\<lambda>c. c + k) ` refs_obj (h ! (a - k))"
        by (simp add: refs_obj_shift)
      moreover have "\<forall>c \<in> refs_obj (h ! (a - k)). c < k"
        using assms(1,2) a(1) by (auto simp: closed_heap_iff)
      ultimately show ?thesis by auto
    qed
    show "refs (shift k x) \<subseteq> {a. k \<le> a \<and> a < 2 * k}"
      using assms(2,3) by (auto simp: refs_shift valid_def)
  qed
  also have "\<dots> = reading K d h x"
    using reading_twin [of K d h x] assms(2) by simp
  finally show ?thesis .
qed


lemma list_append_eq:
  "l < length h \<Longrightarrow> h ! l = OList ys \<Longrightarrow> list_append h l c = h[l := OList (ys @ [c])]"
  by (simp add: list_append_def heap_get_def)

lemma labels_loop_inv:
  assumes "closed_heap h" "l < length h" "h ! l = OList ys" "upper (Suc l) h"
    and "\<forall>a \<in> refs_obj (h ! l). l < a"
    and "closed_heap (take l h)"
    and "\<forall>x \<in> set xs. valid (take l h) x"
    and "\<forall>x \<in> set xs. has_image_id (take l h) x"
  shows "\<exists>h' zs. labels_loop h l iid xs = Inr h' \<and> closed_heap h' \<and> length h \<le> length h' \<and>
           (\<forall>a < length h. a \<noteq> l \<longrightarrow> h' ! a = h ! a) \<and> h' ! l = OList (ys @ zs) \<and>
           upper (Suc l) h' \<and> (\<forall>a \<in> refs_obj (h' ! l). l < a) \<and>
           list_all2 (\<lambda>z x. same_reading h' z (take l h) x) zs
             (filter (label_of (take l h) iid) xs)"
  using assms
proof (induction xs arbitrary: h ys)
  case Nil
  then show ?case by simp
next
  case (Cons x rest)
  let ?H = "take l h"
  note c = Cons.prems(1) and l = Cons.prems(2) and hl = Cons.prems(3) and up = Cons.prems(4)
    and rl = Cons.prems(5) and cH = Cons.prems(6)
  have vx: "valid ?H x" and vr: "\<forall>x \<in> set rest. valid ?H x"
    using Cons.prems(7) by simp_all
  have ix: "has_image_id ?H x" and ir: "\<forall>x \<in> set rest. has_image_id ?H x"
    using Cons.prems(8) by simp_all
  have lenH: "length ?H = l" using l by simp
  have rx: "\<And>a. a \<in> refs x \<Longrightarrow> a < l" using vx lenH by (simp add: valid_def)
  have gx: "getitem h x ''image_id'' = getitem ?H x ''image_id''"
    by (rule getitem_agree) (use rx l in \<open>simp add: heap_get_take\<close>)
  from ix obtain v where v: "getitem ?H x ''image_id'' = Inr v"
    by (auto simp: has_image_id_def split: sum.splits)
  show ?case
  proof (cases "py_eq_int v iid")
    case False
    then have f: "filter (label_of ?H iid) (x # rest) = filter (label_of ?H iid) rest"
      using v by (simp add: label_of_def)
    have "labels_loop h l iid (x # rest) = labels_loop h l iid rest"
      using gx v False by simp
    then show ?thesis
      using Cons.IH [OF c l hl up rl cH vr ir] f by simp
  next
    case True
    define k where "k = length h"
    define h1 where "h1 = h @ map (shift_obj k) h"
    define cp where "cp = shift k x"
    define h2 where "h2 = h1[l := OList (ys @ [cp])]"
    have len1: "length h1 = 2 * k" and len2: "length h2 = 2 * k"
      by (simp_all add: h1_def h2_def k_def)
    have lk: "l < k" using l by (simp add: k_def)
    have h1l: "h1 ! l = OList ys" using hl l by (simp add: h1_def nth_append)
    have dc: "deepcopy h x = (cp, h1)"
      by (simp add: deepcopy_def cp_def h1_def k_def)
    have step: "labels_loop h l iid (x # rest) = labels_loop h2 l iid rest"
      using gx v True dc list_append_eq [of l h1 ys cp] h1l lk len1
      by (simp add: h2_def)
    have c1: "closed_heap h1" unfolding h1_def k_def by (rule closed_twin [OF c])
    have rcp: "\<And>a. a \<in> refs cp \<Longrightarrow> k \<le> a \<and> a < 2 * k"
      using rx lk by (fastforce simp: cp_def refs_shift)
    have rys: "\<And>a. a \<in> refs_obj (OList ys) \<Longrightarrow> l < a \<and> a < k"
      using rl hl c l by (auto simp: closed_heap_iff k_def)
    have rnew: "\<And>a. a \<in> refs_obj (OList (ys @ [cp])) \<Longrightarrow> l < a \<and> a < 2 * k"
      using rcp rys lk by fastforce
    have c2: "closed_heap h2" unfolding h2_def
      by (rule closed_heap_update [OF c1]) (use lk len1 rnew in auto)
    have l2: "l < length h2" using lk len2 by simp
    have h2l: "h2 ! l = OList (ys @ [cp])" using lk len1 by (simp add: h2_def)
    have up1: "upper (Suc l) h1" unfolding h1_def k_def
      by (rule upper_twin [OF up]) (use l in simp)
    have up2: "upper (Suc l) h2" unfolding h2_def
      by (rule upper_update_below [OF up1]) (use lk len1 in auto)
    have rl2: "\<forall>a \<in> refs_obj (h2 ! l). l < a" using rnew h2l by auto
    have tk: "take l h2 = ?H" using lk by (simp add: h2_def h1_def k_def)
    from Cons.IH [OF c2 l2 h2l up2 rl2, unfolded tk, OF cH vr ir]
    obtain h' zs where r: "labels_loop h2 l iid rest = Inr h'" "closed_heap h'"
      "length h2 \<le> length h'" "\<forall>a < length h2. a \<noteq> l \<longrightarrow> h' ! a = h2 ! a"
      "h' ! l = OList ((ys @ [cp]) @ zs)" "upper (Suc l) h'" "\<forall>a \<in> refs_obj (h' ! l). l < a"
      "list_all2 (\<lambda>z x. same_reading h' z ?H x) zs (filter (label_of ?H iid) rest)"
      by blast
    have frame: "\<forall>a < length h. a \<noteq> l \<longrightarrow> h' ! a = h ! a"
    proof (intro allI impI)
      fix a assume a: "a < length h" "a \<noteq> l"
      then have "h' ! a = h2 ! a" using r(4) len2 by (simp add: k_def)
      also have "\<dots> = h ! a" using a by (simp add: h2_def h1_def nth_append)
      finally show "h' ! a = h ! a" .
    qed
    have blk: "heap_get h' a = heap_get (h @ map (shift_obj k) h) a" if "k \<le> a" "a < 2 * k" for a
    proof -
      have "a \<noteq> l" using that lk by simp
      then have "h' ! a = h2 ! a" using r(4) that len2 by simp
      also have "\<dots> = h1 ! a" using \<open>a \<noteq> l\<close> by (simp add: h2_def)
      finally show ?thesis using that r(3) len2 len1
        by (simp add: heap_get_def h1_def)
    qed
    have "same_reading h' cp ?H x"
      unfolding same_reading_def same_apart_def
    proof
      fix d
      have vhx: "valid h x" using rx l by (fastforce simp: valid_def)
      have "reading {} d h' cp = reading {} d h x"
        unfolding cp_def by (rule reading_block [where K = "{}", OF c k_def vhx blk])
      also have "\<dots> = reading {} d ?H x"
        by (rule reading_prefix [where K = "{}", OF cH _ vx]) (use l in simp)
      finally show "reading {} d h' cp = reading {} d ?H x" .
    qed
    moreover have "filter (label_of ?H iid) (x # rest) = x # filter (label_of ?H iid) rest"
      using v True by (simp add: label_of_def)
    ultimately have la: "list_all2 (\<lambda>z x. same_reading h' z ?H x) (cp # zs)
        (filter (label_of ?H iid) (x # rest))"
      using r(8) by simp
    have len: "length h \<le> length h'" using r(3) len2 by (simp add: k_def)
    have app: "h' ! l = OList (ys @ (cp # zs))" using r(5) by simp
    have res: "labels_loop h l iid (x # rest) = Inr h'" using step r(1) by simp
    show ?thesis
      by (rule exI [of _ h'], rule exI [of _ "cp # zs"])
        (intro conjI res r(2) len frame app r(6) r(7) la)
  qed
qed

lemma iter_items_append: "valid h v \<Longrightarrow> iter_items (h @ ext) v = iter_items h v"
  by (cases v) (simp_all add: valid_def heap_get_append)

lemma iter_items_valid:
  assumes "closed_heap h" "valid h v" "iter_items h v = Inr xs" "x \<in> set xs"
  shows "valid h x"
proof (cases v)
  case (VTuple ys)
  then show ?thesis using assms by (auto simp: valid_def)
next
  case (VStr str)
  then show ?thesis using assms by (auto simp: valid_def)
next
  case (VRef a)
  show ?thesis
  proof (cases "heap_get h a")
    case None
    then show ?thesis using assms VRef by simp
  next
    case (Some ob)
    have "\<And>b. b \<in> refs_obj ob \<Longrightarrow> b < length h"
      using closed_heap_get [OF assms(1) Some] .
    then show ?thesis using assms(3,4) VRef Some
      by (cases ob) (auto simp: valid_def)
  qed
qed (use assms in simp_all)

























text \<open>
  C6 (as stated, refuted). The claim says that construction raises exactly when a
  sequence holds an element that is not a map or \<open>info\<close> is not a map. With the empty
  string as \<open>info\<close>, which is not a map, construction succeeds: the instance is at
  address 4 and its \<open>info\<close> is the default.
\<close>

theorem Annotation_init_counterexample:
  "\<not> isinstance_dict [] (VStr '''') \<and>
   Annotation_init [] VNone VNone VNone (VStr '''') ''2021/02/07'' =
     Inr (4, [OList [], OList [], OList [], default_info ''2021/02/07'',
              OAnnotation \<lparr>images = VRef 0, categories = VRef 1, annotations = VRef 2,
                           info = VRef 3\<rparr>])"
  by (simp add: Annotation_init_def py_or_def alloc_def check_values_def check_value_def
      heap_get_def default_info_def)

text \<open>
  C6 (amended). Each argument that is falsy (omitted, \<open>None\<close>, empty, zero) is first
  replaced by its default. Construction raises ValueError exactly when, after that, one
  of \<open>images\<close>, \<open>categories\<close>, \<open>annotations\<close> is not a list or tuple or holds an
  element that is not a dict, or \<open>info\<close> is not a dict; it raises nothing else. Otherwise
  it returns a new instance holding the four values, and no earlier object is changed.
  On failure no instance is returned.
\<close>

theorem Annotation_init_schema:
  assumes "closed_heap h" "valid h imgs" "valid h cats" "valid h anns" "valid h info_arg"
  shows
    "(Annotation_init h imgs cats anns info_arg today = Inl ValueError) =
       (\<not> (accepts_seq h imgs \<and> accepts_seq h cats \<and> accepts_seq h anns \<and>
           accepts_info h info_arg)) \<and>
     (\<forall>e. Annotation_init h imgs cats anns info_arg today = Inl e \<longrightarrow> e = ValueError) \<and>
     ((\<exists>self h' s. Annotation_init h imgs cats anns info_arg today = Inr (self, h') \<and>
          length h \<le> self \<and> heap_get h' self = Some (OAnnotation s) \<and>
          take (length h) h' = h \<and>
          stored h h' imgs (OList []) (images s) \<and>
          stored h h' cats (OList []) (categories s) \<and>
          stored h h' anns (OList []) (annotations s) \<and>
          stored h h' info_arg (default_info today) (info s)) =
       (accepts_seq h imgs \<and> accepts_seq h cats \<and> accepts_seq h anns \<and>
        accepts_info h info_arg))"
proof (cases "accepts_seq h imgs \<and> accepts_seq h cats \<and> accepts_seq h anns \<and>
    accepts_info h info_arg")
  case True
  from Annotation_init_cases [OF assms, of today] True
  have ex: "\<exists>self h' s. Annotation_init h imgs cats anns info_arg today = Inr (self, h') \<and>
          length h \<le> self \<and> heap_get h' self = Some (OAnnotation s) \<and>
          take (length h) h' = h \<and>
          stored h h' imgs (OList []) (images s) \<and>
          stored h h' cats (OList []) (categories s) \<and>
          stored h h' anns (OList []) (annotations s) \<and>
          stored h h' info_arg (default_info today) (info s)"
    by (simp only: if_True)
  then obtain self h' where r: "Annotation_init h imgs cats anns info_arg today = Inr (self, h')"
    by blast
  show ?thesis using True ex r by simp
next
  case False
  from Annotation_init_cases [OF assms, of today] False
  have r: "Annotation_init h imgs cats anns info_arg today = Inl ValueError"
    by (simp only: if_False)
  show ?thesis using False r by simp
qed

theorem Annotation_init_schema_witness:
  "closed_heap [ODict [(''id'', VInt 1)], OList [VRef 0]] \<and>
   valid [ODict [(''id'', VInt 1)], OList [VRef 0]] (VRef 1) \<and>
   accepts_seq [ODict [(''id'', VInt 1)], OList [VRef 0]] (VRef 1) \<and>
   (\<exists>self h' s.
      Annotation_init [ODict [(''id'', VInt 1)], OList [VRef 0]] (VRef 1) VNone VNone VNone
        ''2021/02/07'' = Inr (self, h') \<and>
      2 \<le> self \<and> heap_get h' self = Some (OAnnotation s) \<and>
      take 2 h' = [ODict [(''id'', VInt 1)], OList [VRef 0]] \<and> images s = VRef 1)"
proof -
  let ?h = "[ODict [(''id'', VInt 1)], OList [VRef 0]]"
  have c: "closed_heap ?h" by (simp add: closed_heap_def)
  have v: "valid ?h (VRef 1)" "valid ?h VNone" by (simp_all add: valid_def)
  have a: "accepts_seq ?h (VRef 1)" "accepts_seq ?h VNone" "accepts_info ?h VNone"
    by (simp_all add: accepts_seq_def accepts_info_def heap_get_def)
  have t: "truthy ?h (VRef 1)" by (simp add: heap_get_def)
  show ?thesis
    using Annotation_init_schema [OF c v(1) v(2) v(2) v(2), of "''2021/02/07''"] c v a t
    by (auto simp: stored_def numeral_2_eq_2)
qed

text \<open>The other example of the specification: \<open>images=["not a dict"]\<close> raises.\<close>

lemma Annotation_init_not_a_dict:
  "Annotation_init [OList [VStr ''not a dict'']] (VRef 0) VNone VNone VNone today
   = Inl ValueError"
  by (simp add: Annotation_init_def py_or_def alloc_def check_values_def check_value_def
      heap_get_def nth_append)

text \<open>
  C9. When \<open>info\<close> is omitted, \<open>None\<close> or an empty dict, and the three sequences are
  accepted, the instance's \<open>info\<close> is a new dict, allocated by the call (so it is not
  the dict that was passed), with the keys \<open>description\<close> and \<open>date_created\<close>; when a
  sequence is not accepted the call raises ValueError.
\<close>

theorem Annotation_init_default_info:
  assumes "closed_heap h" "valid h imgs" "valid h cats" "valid h anns" "valid h info_arg"
    and "info_arg = VNone \<or> (\<exists>a. info_arg = VRef a \<and> heap_get h a = Some (ODict []))"
  shows
    "if accepts_seq h imgs \<and> accepts_seq h cats \<and> accepts_seq h anns
     then \<exists>self h' s i. Annotation_init h imgs cats anns info_arg today = Inr (self, h') \<and>
            heap_get h' self = Some (OAnnotation s) \<and> info s = VRef i \<and> length h \<le> i \<and>
            heap_get h' i =
              Some (ODict [(''description'', VStr ''Auto-generated by Geolabel-Maker''),
                           (''date_created'', VStr today)])
     else Annotation_init h imgs cats anns info_arg today = Inl ValueError"
proof -
  have f: "\<not> truthy h info_arg" using assms(6) by auto
  then have ai: "accepts_info h info_arg" by (simp add: accepts_info_def)
  show ?thesis
  proof (cases "accepts_seq h imgs \<and> accepts_seq h cats \<and> accepts_seq h anns")
    case True
    from Annotation_init_cases [OF assms(1-5), of today] True ai
    obtain self h' s where r: "Annotation_init h imgs cats anns info_arg today = Inr (self, h')"
      "heap_get h' self = Some (OAnnotation s)"
      "stored h h' info_arg (default_info today) (info s)"
      by auto
    from r(3) f obtain i where i: "info s = VRef i" "length h \<le> i"
      "heap_get h' i = Some (default_info today)"
      by (auto simp: stored_def)
    show ?thesis
      unfolding if_P [OF True]
      by (rule exI [of _ self], rule exI [of _ h'], rule exI [of _ s], rule exI [of _ i])
        (use r i in \<open>simp add: default_info_def\<close>)
  next
    case False
    from Annotation_init_cases [OF assms(1-5), of today] False
    have "Annotation_init h imgs cats anns info_arg today = Inl ValueError"
      by auto
    then show ?thesis unfolding if_not_P [OF False] .
  qed
qed

theorem Annotation_init_default_info_witness:
  "closed_heap [ODict []] \<and> valid [ODict []] (VRef 0) \<and> heap_get [ODict []] 0 = Some (ODict []) \<and>
   (\<exists>self h' s i.
      Annotation_init [ODict []] VNone VNone VNone (VRef 0) ''2021/02/07'' = Inr (self, h') \<and>
      heap_get h' self = Some (OAnnotation s) \<and> info s = VRef i \<and> 1 \<le> i \<and>
      heap_get h' i =
        Some (ODict [(''description'', VStr ''Auto-generated by Geolabel-Maker''),
                     (''date_created'', VStr ''2021/02/07'')]))"
proof -
  let ?h = "[ODict []]"
  have c: "closed_heap ?h" by (simp add: closed_heap_def)
  have v: "valid ?h (VRef 0)" "valid ?h VNone" by (simp_all add: valid_def)
  have g: "heap_get ?h 0 = Some (ODict [])" by (simp add: heap_get_def)
  have a: "accepts_seq ?h VNone" by (simp add: accepts_seq_def)
  show ?thesis
    using Annotation_init_default_info [OF c v(2) v(2) v(2) v(1), of "''2021/02/07''"] c v g a
    by simp
qed

text \<open>
  C7 (as stated, refuted). The claim covers every AnnotationSet. On an instance whose
  only annotation record is \<open>{"id": 0, "image_name": "a.png"}\<close>, which has no
  \<open>image_id\<close>, \<open>get_labels\<close> raises KeyError and returns nothing.
\<close>

theorem get_labels_counterexample:
  "get_labels
     [OList [], OList [], ODict [(''id'', VInt 0), (''image_name'', VStr ''a.png'')],
      OList [VRef 2], ODict [(''description'', VStr ''example'')],
      OAnnotation \<lparr>images = VRef 0, categories = VRef 1, annotations = VRef 3, info = VRef 4\<rparr>]
     5 1 = Inl KeyError"
  by (simp add: get_labels_def heap_get_def alloc_def nth_append)

text \<open>
  C7 (amended). For every AnnotationSet whose annotation records all have an
  \<open>image_id\<close> field, and every integer \<open>image_id\<close>, \<open>get_labels\<close> returns a new list;
  its elements are, in the original order, copies of exactly the records whose
  \<open>image_id\<close> equals the argument: each reads the same as its record, and every object
  reachable from the list was allocated by the call. The list is empty when no record
  matches. No object that existed before is changed.
\<close>

theorem get_labels_spec:
  assumes "closed_heap h" "heap_get h self = Some (OAnnotation s)"
    and "iter_items h (annotations s) = Inr xs"
    and "\<forall>x \<in> set xs. has_image_id h x"
  shows "\<exists>l h' ys. get_labels h self image_id = Inr (VRef l, h') \<and> take (length h) h' = h \<and>
           length h \<le> l \<and> heap_get h' l = Some (OList ys) \<and>
           list_all2 (\<lambda>y x. same_reading h' y h x) ys (filter (label_of h image_id) xs) \<and>
           (\<forall>a. reach h' (VRef l) a \<longrightarrow> length h \<le> a)"
proof -
  define l where "l = length h"
  define h0 where "h0 = h @ [OList []]"
  have va: "valid h (annotations s)"
    using closed_heap_get [OF assms(1,2)] by (simp add: valid_def)
  have it: "iter_items h0 (annotations s) = Inr xs"
    unfolding h0_def using assms(3) va by (simp add: iter_items_append)
  have tk: "take l h0 = h" by (simp add: l_def h0_def)
  have c0: "closed_heap h0" unfolding h0_def by (rule closed_snoc [OF assms(1)]) simp
  have l0: "l < length h0" by (simp add: l_def h0_def)
  have n0: "h0 ! l = OList []" by (simp add: l_def h0_def)
  have u0: "upper (Suc l) h0" by (simp add: upper_def l_def h0_def)
  have r0: "\<forall>a \<in> refs_obj (h0 ! l). l < a" by (simp add: n0)
  have vx: "\<forall>x \<in> set xs. valid h x"
    using iter_items_valid [OF assms(1) va assms(3)] by blast
  from labels_loop_inv [OF c0 l0 n0 u0 r0, unfolded tk, OF assms(1) vx assms(4), of image_id]
  obtain h' zs where r: "labels_loop h0 l image_id xs = Inr h'" "closed_heap h'"
    "length h0 \<le> length h'" "\<forall>a < length h0. a \<noteq> l \<longrightarrow> h' ! a = h0 ! a"
    "h' ! l = OList ([] @ zs)" "upper (Suc l) h'" "\<forall>a \<in> refs_obj (h' ! l). l < a"
    "list_all2 (\<lambda>z x. same_reading h' z h x) zs (filter (label_of h image_id) xs)"
    by blast
  have res: "get_labels h self image_id = Inr (VRef l, h')"
    using assms(2) it r(1) by (simp add: get_labels_def alloc_def l_def h0_def)
  have tkh: "take (length h) h' = h"
  proof (rule nth_equalityI)
    show "length (take (length h) h') = length h" using r(3) by (simp add: h0_def)
    fix a assume "a < length (take (length h) h')"
    then have a: "a < length h" by simp
    then have "h' ! a = h0 ! a" using r(4) by (simp add: h0_def l_def)
    then show "take (length h) h' ! a = h ! a" using a by (simp add: h0_def nth_append)
  qed
  have get: "heap_get h' l = Some (OList zs)"
    using r(3,5) l0 by (simp add: heap_get_def)
  have rch: "\<forall>a. reach h' (VRef l) a \<longrightarrow> length h \<le> a"
  proof (intro allI impI)
    fix a assume "reach h' (VRef l) a"
    then have "a \<in> {a. l \<le> a}"
    proof (rule reach_within [rotated 2])
      show "refs (VRef l) \<subseteq> {a. l \<le> a}" by simp
      fix b c assume b: "b \<in> {a. l \<le> a}" "b < length h'" "c \<in> refs_obj (h' ! b)"
      show "c \<in> {a. l \<le> a}"
      proof (cases "b = l")
        case True
        then show ?thesis using r(7) b(3) by auto
      next
        case False
        then have "Suc l \<le> b" using b(1) by simp
        then have "Suc l \<le> c" using r(6) b(2,3) by (auto simp: upper_def)
        then show ?thesis by simp
      qed
    qed
    then show "length h \<le> a" by (simp add: l_def)
  qed
  have ll: "length h \<le> l" by (simp add: l_def)
  show ?thesis
    by (rule exI [of _ l], rule exI [of _ h'], rule exI [of _ zs])
      (intro conjI res tkh ll get r(8) rch)
qed


theorem get_labels_spec_witness:
  "closed_heap example_heap \<and>
   heap_get example_heap 7 =
     Some (OAnnotation \<lparr>images = VRef 0, categories = VRef 1, annotations = VRef 5,
                         info = VRef 6\<rparr>) \<and>
   iter_items example_heap (VRef 5) = Inr [VRef 2, VRef 3, VRef 4] \<and>
   list_all (has_image_id example_heap) [VRef 2, VRef 3, VRef 4] \<and>
   (\<exists>l h' ys. get_labels example_heap 7 2 = Inr (VRef l, h') \<and> take 8 h' = example_heap \<and>
      8 \<le> l \<and> heap_get h' l = Some (OList ys) \<and>
      list_all2 (\<lambda>y x. same_reading h' y example_heap x) ys [VRef 3, VRef 4] \<and>
      (\<forall>a. reach h' (VRef l) a \<longrightarrow> 8 \<le> a))"
proof -
  let ?s = "\<lparr>images = VRef 0, categories = VRef 1, annotations = VRef 5, info = VRef 6\<rparr>"
  have c: "closed_heap example_heap"
    by (simp add: closed_heap_def example_heap_def)
  have g: "heap_get example_heap 7 = Some (OAnnotation ?s)"
    by (simp add: heap_get_def example_heap_def)
  have i: "iter_items example_heap (annotations ?s) = Inr [VRef 2, VRef 3, VRef 4]"
    by (simp add: heap_get_def example_heap_def)
  have k: "\<forall>x \<in> set [VRef 2, VRef 3, VRef 4]. has_image_id example_heap x"
    by (simp add: has_image_id_def heap_get_def example_heap_def)
  have f: "filter (label_of example_heap 2) [VRef 2, VRef 3, VRef 4] = [VRef 3, VRef 4]"
    by (simp add: label_of_def heap_get_def example_heap_def)
  have n: "length example_heap = 8"
    by (simp add: example_heap_def)
  show ?thesis
    using get_labels_spec [OF c g i k, of 2] c g i k unfolding f n by simp
qed

text \<open>
  The example of the specification, computed: on the example instance \<open>get_labels\<close> with
  \<open>image_id = 2\<close> returns a list of two dicts, which read as the second and the third
  record, in that order.
\<close>

lemma get_labels_example:
  "(case get_labels example_heap 7 2 of
      Inr (VRef l, h') \<Rightarrow>
        (case heap_get h' l of
           Some (OList ys) \<Rightarrow>
             map (reading {} 1 h') ys =
               [TDict [(''id'', TInt 1), (''image_id'', TInt 2)],
                TDict [(''id'', TInt 2), (''image_id'', TInt 2)]]
         | _ \<Rightarrow> False)
    | _ \<Rightarrow> False)"
  by (simp add: get_labels_def example_heap_def heap_get_def alloc_def deepcopy_def
      list_append_def nth_append)





end
